theory Spec2Isabelle
  imports Main "HOL-Library.Sublist" "HOL-Library.AList"
begin

section \<open>Dependency graph construction and install order\<close>

text \<open>
  A shallow embedding of the graph-construction and ordering engine of the dependency
  visualiser: the bounded depth-first builder \<^verbatim>\<open>dfs_build_graph\<close> of
  \<^verbatim>\<open>stage4/main4.py\<close> and \<^verbatim>\<open>stage5/main5.py\<close>, the filter predicate
  \<^verbatim>\<open>should_skip_package\<close> and the cycle-aware sorter \<^verbatim>\<open>topological_sort\<close>
  (the same text in both stages).  Command line parsing, the registry client and the
  diagram export are not modelled.
\<close>

subsection \<open>Data model\<close>

text \<open>
  A package name is a string.  The dependency graph is a Python \<^verbatim>\<open>dict\<close> from names to
  lists of names; its iteration order is its insertion order, and the sorter depends on that
  order, so the graph is an association list.  \<^verbatim>\<open>graph[k] = v\<close> is \<open>AList.update k v\<close>:
  an existing key keeps its place, a new key goes to the end.  \<^verbatim>\<open>graph.get(k, [])\<close> is
  \<open>graph_get\<close>.  A \<^verbatim>\<open>dict\<close> holds each key once; the statements below are proved for
  every association list, and so for those with distinct keys.

  The dependency source \<^verbatim>\<open>get_deps_func\<close> is a function from a name to the list it
  returns, or \<open>None\<close> when the call raises.  It is taken to answer the same way each time
  it is asked about the same name.
\<close>

type_synonym name = string

type_synonym graph = "(name \<times> name list) list"

type_synonym dependency_source = "name \<Rightarrow> name list option"

definition keys :: "graph \<Rightarrow> name list" where
  "keys g = map fst g"

definition graph_get :: "graph \<Rightarrow> name \<Rightarrow> name list" where
  "graph_get g node = (case map_of g node of Some ds \<Rightarrow> ds | None \<Rightarrow> [])"

subsection \<open>Traversal policy\<close>

text \<open>
  \<^verbatim>\<open>filter_substring in pkg_name\<close> is the contiguous-sublist test on strings.  \<open>keep\<close> is
  the list comprehension that drops the filtered names from a dependency list.
\<close>

definition should_skip_package :: "name \<Rightarrow> string \<Rightarrow> bool" where
  "should_skip_package pkg_name filter_substring =
     (if filter_substring = [] then False else sublist filter_substring pkg_name)"

definition keep :: "string \<Rightarrow> name list \<Rightarrow> name list" where
  "keep filter_substring deps = filter (\<lambda>dep. \<not> should_skip_package dep filter_substring) deps"

subsection \<open>The graph builder\<close>

text \<open>
  The builder mutates the graph (and, in stage 5, the set \<^verbatim>\<open>processed\<close>) in place; the
  model passes the state along.  Two more fields record what the run does to the outside:
  \<open>queried\<close> lists every call of the dependency source, as the pair of the name asked for
  and the depth of the asking call (stage 5 prints this pair as
  \<^verbatim>\<open>Processing: name (depth d)\<close>), and \<open>diagnostics\<close> lists the names for which the
  \<^verbatim>\<open>except\<close> branch printed its message.  The handler \<^verbatim>\<open>except Exception\<close> encloses
  the only call that can raise, so the builder itself has no error result.
\<close>

record build_state =
  graph :: graph
  queried :: "(name \<times> int) list"
  diagnostics :: "name list"

record memo_state = build_state +
  processed :: "name set"

text \<open>
  Stage 4.  The node gets an empty entry before it is resolved; there is no memo set, and a
  dependency is entered again whenever the depth budget allows it.
\<close>

function dfs_build_graph4 ::
  "name \<Rightarrow> int \<Rightarrow> int \<Rightarrow> string \<Rightarrow> name set \<Rightarrow> build_state \<Rightarrow> dependency_source \<Rightarrow> build_state"
where
  "dfs_build_graph4 current depth max_depth filter_substring visited_path st get_deps_func =
     (if depth > max_depth then st
      else if should_skip_package current filter_substring then st
      else if current \<in> visited_path then st
      else
        (let st0 = (if current \<notin> set (keys (graph st))
                    then st\<lparr>graph := AList.update current [] (graph st)\<rparr> else st)
         in case get_deps_func current of
              None \<Rightarrow>
                st0\<lparr>queried := queried st0 @ [(current, depth)],
                    diagnostics := diagnostics st0 @ [current]\<rparr>
            | Some direct_deps \<Rightarrow>
                (let filtered_deps =
                       filter (\<lambda>dep. \<not> should_skip_package dep filter_substring) direct_deps;
                     st1 = st0\<lparr>graph := AList.update current filtered_deps (graph st0),
                               queried := queried st0 @ [(current, depth)]\<rparr>
                 in fold (\<lambda>dep s.
                            if dep \<notin> set (keys (graph s)) \<or> depth + 1 \<le> max_depth
                            then dfs_build_graph4 dep (depth + 1) max_depth filter_substring
                                   (insert current visited_path) s get_deps_func
                            else s)
                         filtered_deps st1)))"
  by pat_completeness auto

text \<open>
  Stage 5.  The set \<^verbatim>\<open>processed\<close> holds every node whose expansion has finished or
  failed; such a node is not entered again.  A node whose resolution fails gets no entry.
\<close>

function dfs_build_graph5 ::
  "name \<Rightarrow> int \<Rightarrow> int \<Rightarrow> string \<Rightarrow> name set \<Rightarrow> memo_state \<Rightarrow> dependency_source \<Rightarrow> memo_state"
where
  "dfs_build_graph5 current depth max_depth filter_substring visited_path st get_deps_func =
     (if depth > max_depth then st
      else if should_skip_package current filter_substring then st
      else if current \<in> visited_path then st
      else if current \<in> processed st then st
      else
        (case get_deps_func current of
           None \<Rightarrow>
             st\<lparr>queried := queried st @ [(current, depth)],
                diagnostics := diagnostics st @ [current],
                processed := insert current (processed st)\<rparr>
         | Some direct_deps \<Rightarrow>
             (let filtered_deps =
                    filter (\<lambda>dep. \<not> should_skip_package dep filter_substring) direct_deps;
                  st1 = st\<lparr>graph := AList.update current filtered_deps (graph st),
                           queried := queried st @ [(current, depth)]\<rparr>;
                  st2 = fold (\<lambda>dep s. dfs_build_graph5 dep (depth + 1) max_depth filter_substring
                                         (insert current visited_path) s get_deps_func)
                             filtered_deps st1
              in st2\<lparr>processed := insert current (processed st2)\<rparr>)))"
  by pat_completeness auto

text \<open>The call made by \<^verbatim>\<open>main\<close>: empty graph, empty sets, depth 0.\<close>

definition empty_build_state :: build_state where
  "empty_build_state = \<lparr>graph = [], queried = [], diagnostics = []\<rparr>"

definition empty_memo_state :: memo_state where
  "empty_memo_state = \<lparr>graph = [], queried = [], diagnostics = [], processed = {}\<rparr>"

definition build_graph4 :: "name \<Rightarrow> int \<Rightarrow> string \<Rightarrow> dependency_source \<Rightarrow> build_state" where
  "build_graph4 package max_depth filter_substring get_deps_func =
     dfs_build_graph4 package 0 max_depth filter_substring {} empty_build_state get_deps_func"

definition build_graph5 :: "name \<Rightarrow> int \<Rightarrow> string \<Rightarrow> dependency_source \<Rightarrow> memo_state" where
  "build_graph5 package max_depth filter_substring get_deps_func =
     dfs_build_graph5 package 0 max_depth filter_substring {} empty_memo_state get_deps_func"

subsection \<open>Dependency identifiers of a manifest\<close>

text \<open>
  The online source reads the dependency names from the \<^verbatim>\<open>dependencies\<close> element of a
  package manifest: the \<^verbatim>\<open>dependency\<close> children of its \<^verbatim>\<open>group\<close> children first,
  then its own \<^verbatim>\<open>dependency\<close> children.  A \<^verbatim>\<open>dependency\<close> element is modelled by its
  attributes \<^verbatim>\<open>id\<close> and \<^verbatim>\<open>version\<close>, each absent or a string.  The manifest is \<open>None\<close>
  without a \<^verbatim>\<open>metadata\<close> element and \<open>Some None\<close> when that element has no
  \<^verbatim>\<open>dependencies\<close> child.

  \<open>extract_dependencies\<close> is the function of stage 4: its helper \<^verbatim>\<open>add\<close> skips a pair of
  identifier and version it has seen.  \<open>nuspec_dependency_ids\<close> is the corresponding part of
  \<^verbatim>\<open>get_nuget_direct_deps\<close> of stage 5, which skips an identifier it has already listed.
\<close>

type_synonym dependency_element = "string option \<times> string option"

record dependencies_element =
  groups :: "dependency_element list list"
  direct :: "dependency_element list"

type_synonym nuspec = "dependencies_element option option"

definition add :: "string \<Rightarrow> string \<Rightarrow> (string \<times> string) set \<times> string list
    \<Rightarrow> (string \<times> string) set \<times> string list" where
  "add dep_id dep_version acc =
     (case acc of (seen, deps) \<Rightarrow>
        if (dep_id, dep_version) \<notin> seen
        then (insert (dep_id, dep_version) seen, deps @ [dep_id])
        else (seen, deps))"

definition visit_dependency :: "dependency_element \<Rightarrow> (string \<times> string) set \<times> string list
    \<Rightarrow> (string \<times> string) set \<times> string list" where
  "visit_dependency dep acc =
     (case fst dep of
        None \<Rightarrow> acc
      | Some dep_id \<Rightarrow>
          if dep_id = [] then acc
          else add dep_id (case snd dep of None \<Rightarrow> [] | Some v \<Rightarrow> v) acc)"

definition extract_dependencies :: "nuspec \<Rightarrow> string list" where
  "extract_dependencies nuspec_root =
     (case nuspec_root of
        None \<Rightarrow> []
      | Some None \<Rightarrow> []
      | Some (Some deps_groups) \<Rightarrow>
          snd (fold visit_dependency (direct deps_groups)
                 (fold (\<lambda>group acc. fold visit_dependency group acc) (groups deps_groups)
                    ({}, []))))"

definition visit_id :: "dependency_element \<Rightarrow> string list \<Rightarrow> string list" where
  "visit_id dep deps =
     (case fst dep of
        None \<Rightarrow> deps
      | Some i \<Rightarrow> if i \<noteq> [] \<and> i \<notin> set deps then deps @ [i] else deps)"

definition nuspec_dependency_ids :: "nuspec \<Rightarrow> string list" where
  "nuspec_dependency_ids root =
     (case root of
        None \<Rightarrow> []
      | Some None \<Rightarrow> []
      | Some (Some deps_node) \<Rightarrow>
          fold visit_id (direct deps_node)
            (fold (\<lambda>group deps. fold visit_id group deps) (groups deps_node) []))"

subsection \<open>The sorter\<close>

text \<open>
  The nested function \<^verbatim>\<open>dfs\<close> of \<^verbatim>\<open>topological_sort\<close> updates the dictionary
  \<^verbatim>\<open>color\<close>, the list \<^verbatim>\<open>result\<close> and the set \<^verbatim>\<open>in_cycle\<close>.  Its loop over the
  dependencies of a node is \<open>dfs_loop\<close>.  \<^verbatim>\<open>color[node]\<close> raises \<^verbatim>\<open>KeyError\<close> for a
  name that is not a key of \<^verbatim>\<open>color\<close>; the model returns \<open>Inl (KeyError node)\<close> there.
  The interpreter's recursion limit is not modelled.
\<close>

datatype color = WHITE | GRAY | BLACK

datatype error = KeyError name

record sort_state =
  color :: "name \<rightharpoonup> color"
  result :: "name list"
  in_cycle :: "name set"

function dfs :: "graph \<Rightarrow> name \<Rightarrow> sort_state \<Rightarrow> error + (bool \<times> sort_state)"
  and dfs_loop :: "graph \<Rightarrow> name \<Rightarrow> name list \<Rightarrow> sort_state \<Rightarrow> error + (bool \<times> sort_state)"
where
  "dfs g node st =
     (case color st node of
        None \<Rightarrow> Inl (KeyError node)
      | Some GRAY \<Rightarrow> Inr (False, st\<lparr>in_cycle := insert node (in_cycle st)\<rparr>)
      | Some BLACK \<Rightarrow> Inr (True, st)
      | Some WHITE \<Rightarrow> dfs_loop g node (graph_get g node) (st\<lparr>color := (color st)(node \<mapsto> GRAY)\<rparr>))"
| "dfs_loop g node [] st =
     Inr (True, st\<lparr>color := (color st)(node \<mapsto> BLACK), result := result st @ [node]\<rparr>)"
| "dfs_loop g node (dep # deps) st =
     (if dep \<notin> set (keys g) then dfs_loop g node deps st
      else (case dfs g dep st of
              Inl e \<Rightarrow> Inl e
            | Inr (ok, st') \<Rightarrow>
                if \<not> ok
                then Inr (False, st'\<lparr>in_cycle := insert node (in_cycle st'),
                                     color := (color st')(node \<mapsto> WHITE)\<rparr>)
                else dfs_loop g node deps st'))"
  by pat_completeness auto

fun sort_loop :: "graph \<Rightarrow> name list \<Rightarrow> sort_state \<Rightarrow> error + sort_state" where
  "sort_loop g [] st = Inr st"
| "sort_loop g (node # nodes) st =
     (case color st node of
        None \<Rightarrow> Inl (KeyError node)
      | Some c \<Rightarrow>
          if c = WHITE
          then (case dfs g node st of
                  Inl e \<Rightarrow> Inl e
                | Inr (ok, st') \<Rightarrow> sort_loop g nodes st')
          else sort_loop g nodes st)"

definition init_state :: "graph \<Rightarrow> sort_state" where
  "init_state g =
     \<lparr>color = map_of (map (\<lambda>node. (node, WHITE)) (keys g)), result = [], in_cycle = {}\<rparr>"

definition topological_sort :: "graph \<Rightarrow> error + name list" where
  "topological_sort g =
     (case sort_loop g (keys g) (init_state g) of
        Inl e \<Rightarrow> Inl e
      | Inr st \<Rightarrow> Inr (filter (\<lambda>node. node \<notin> in_cycle st) (result st)))"

subsection \<open>Notions used in the statements\<close>

text \<open>
  \<open>precedes b a xs\<close>: \<open>b\<close> occurs in \<open>xs\<close> before the first occurrence of \<open>a\<close>.
  \<open>edges g\<close>: the pairs \<open>(a, b)\<close> with \<open>b\<close> in the dependency list of the key \<open>a\<close>.
  \<open>failures src log\<close>: the names of the query log for which the source raised.
  \<open>heal src\<close>: the source that answers with the empty list wherever \<open>src\<close> raises.
  \<open>resolved_only src g\<close>: the entries of \<open>g\<close> whose key \<open>src\<close> resolves.
\<close>

definition precedes :: "'a \<Rightarrow> 'a \<Rightarrow> 'a list \<Rightarrow> bool" where
  "precedes b a xs = (b \<in> set (takeWhile (\<lambda>x. x \<noteq> a) xs))"

definition pos :: "'a \<Rightarrow> 'a list \<Rightarrow> nat" where
  "pos a xs = length (takeWhile (\<lambda>x. x \<noteq> a) xs)"

definition edges :: "graph \<Rightarrow> (name \<times> name) set" where
  "edges g = {(a, b). b \<in> set (graph_get g a)}"





text \<open>Dependency sources for the scenarios: static repositories, and one with a failing name.\<close>

definition diamond :: dependency_source where
  "diamond = map_of [(''A'', [''B'', ''C'']), (''B'', [''D'']), (''C'', [''D'']), (''D'', [])]"

definition duplicated :: dependency_source where
  "duplicated = map_of [(''A'', [''B'', ''B''])]"

definition cyclic :: dependency_source where
  "cyclic = map_of [(''A'', [''B'']), (''B'', [''A''])]"

definition app_source :: dependency_source where
  "app_source = map_of [(''App'', [''TestUtils'', ''Core'']), (''Core'', []),
                        (''TestUtils'', [''Hidden''])]"



subsection \<open>Invariants\<close>

text \<open>
  \<open>sort_inv\<close>: the keys of \<^verbatim>\<open>color\<close> are the keys of the graph, the finished (black)
  nodes are exactly the elements of \<^verbatim>\<open>result\<close>, no node occurs twice there, and every
  dependency of a finished node that is a key was appended earlier.
  \<open>once V\<close>: no name was queried twice, and every queried name is in \<open>V\<close> or in
  \<^verbatim>\<open>processed\<close>.  \<open>sim5\<close> and \<open>sim4\<close> relate a run on a source to the run on its healed
  source.
\<close>

definition gray :: "sort_state \<Rightarrow> name set" where
  "gray st = {k. color st k = Some GRAY}"

definition nongray_count :: "graph \<Rightarrow> sort_state \<Rightarrow> nat" where
  "nongray_count g st = card (set (keys g) - gray st)"

definition dfs_measure ::
  "graph \<times> name \<times> sort_state + graph \<times> name \<times> name list \<times> sort_state \<Rightarrow> nat \<times> nat" where
  "dfs_measure x =
     (case x of
        Inl (g, node, st) \<Rightarrow> (nongray_count g st + (if node \<in> set (keys g) then 0 else 1), 0)
      | Inr (g, node, ds, st) \<Rightarrow> (nongray_count g st, Suc (length ds)))"

definition sort_inv :: "graph \<Rightarrow> sort_state \<Rightarrow> bool" where
  "sort_inv g st \<longleftrightarrow>
     dom (color st) = set (keys g) \<and>
     {k. color st k = Some BLACK} = set (result st) \<and>
     distinct (result st) \<and>
     (\<forall>n \<in> set (result st). \<forall>d \<in> set (graph_get g n).
        d \<in> set (keys g) \<longrightarrow> precedes d n (result st))"

definition dfs_post :: "graph \<Rightarrow> name \<Rightarrow> sort_state \<Rightarrow> bool \<Rightarrow> sort_state \<Rightarrow> bool" where
  "dfs_post g node st ok st' \<longleftrightarrow>
     sort_inv g st' \<and> prefix (result st) (result st') \<and>
     (ok \<longrightarrow> node \<in> set (result st'))"


definition active4 :: "name \<Rightarrow> int \<Rightarrow> int \<Rightarrow> string \<Rightarrow> name set \<Rightarrow> bool" where
  "active4 current depth max_depth flt visited \<longleftrightarrow>
     depth \<le> max_depth \<and> \<not> should_skip_package current flt \<and> current \<notin> visited"

definition active5 :: "name \<Rightarrow> int \<Rightarrow> int \<Rightarrow> string \<Rightarrow> name set \<Rightarrow> memo_state \<Rightarrow> bool" where
  "active5 current depth max_depth flt visited st \<longleftrightarrow>
     depth \<le> max_depth \<and> \<not> should_skip_package current flt \<and> current \<notin> visited
     \<and> current \<notin> processed st"

definition touch4 :: "name \<Rightarrow> build_state \<Rightarrow> build_state" where
  "touch4 current st =
     (if current \<notin> set (keys (graph st))
      then st\<lparr>graph := AList.update current [] (graph st)\<rparr> else st)"

definition step4 :: "int \<Rightarrow> int \<Rightarrow> string \<Rightarrow> name set \<Rightarrow> dependency_source \<Rightarrow> name \<Rightarrow> build_state \<Rightarrow> build_state" where
  "step4 depth max_depth flt visited src dep s =
     (if dep \<notin> set (keys (graph s)) \<or> depth \<le> max_depth
      then dfs_build_graph4 dep depth max_depth flt visited s src else s)"


definition entries_ok :: "(name \<Rightarrow> name list \<Rightarrow> bool) \<Rightarrow> graph \<Rightarrow> bool" where
  "entries_ok Q g \<longleftrightarrow> (\<forall>(k, ds) \<in> set g. Q k ds)"



subsection \<open>Termination\<close>

text \<open>
  The builders recurse only at a depth within the bound, with the depth increased by one.
  The sorter's \<open>dfs\<close> recurses only into a white key, which it has just turned gray; a call
  leaves the set of gray nodes as it found it, so the number of keys that are not gray
  decreases along every chain of nested calls.
\<close>

lemma dfs_build_graph4_dom_total: "All dfs_build_graph4_dom"
  by (relation "measure (\<lambda>(current, depth, max_depth, filter_substring, visited_path, st, get_deps_func).
                    nat (max_depth + 1 - depth))") auto

termination dfs_build_graph4
  by (rule dfs_build_graph4_dom_total)

lemma dfs_build_graph5_dom_total: "All dfs_build_graph5_dom"
  by (relation "measure (\<lambda>(current, depth, max_depth, filter_substring, visited_path, st, get_deps_func).
                    nat (max_depth + 1 - depth))") auto

termination dfs_build_graph5
  by (rule dfs_build_graph5_dom_total)

lemma gray_mark: "gray (st\<lparr>color := (color st)(node \<mapsto> GRAY)\<rparr>) = insert node (gray st)"
  by (auto simp: gray_def)

lemma gray_unmark:
  "c \<noteq> GRAY \<Longrightarrow> gray (st\<lparr>color := (color st)(node \<mapsto> c)\<rparr>) = gray st - {node}"
  by (auto simp: gray_def)

lemma gray_other_fields:
  "gray (st\<lparr>in_cycle := s\<rparr>) = gray st"
  "gray (st\<lparr>result := r\<rparr>) = gray st"
  by (simp_all add: gray_def)

lemma gray_preserved_dom:
  "dfs_dfs_loop_dom (Inl (g, node, st)) \<Longrightarrow> dfs g node st = Inr (ok, st') \<Longrightarrow> gray st' = gray st"
  "dfs_dfs_loop_dom (Inr (g, node, ds, st)) \<Longrightarrow> dfs_loop g node ds st = Inr (ok, st') \<Longrightarrow> gray st' = gray st - {node}"
proof (induction g node st and g node ds st arbitrary: ok st' and ok st' rule: dfs_dfs_loop.pinduct)
  case (1 g node st)
  note dom = 1(1) and IH = 1(2) and res = 1(3)
  show ?case
  proof (cases "color st node")
    case None
    with dom res show ?thesis by (simp add: dfs.psimps)
  next
    case (Some c)
    show ?thesis
    proof (cases c)
      case WHITE
      with Some dom res have
        "dfs_loop g node (graph_get g node) (st\<lparr>color := (color st)(node \<mapsto> GRAY)\<rparr>) = Inr (ok, st')"
        by (simp add: dfs.psimps)
      from IH[OF Some WHITE this] have "gray st' = insert node (gray st) - {node}"
        by (simp only: gray_mark)
      moreover from Some WHITE have "node \<notin> gray st" by (simp add: gray_def)
      ultimately show ?thesis by simp
    next
      case GRAY
      with Some dom res have "st' = st\<lparr>in_cycle := insert node (in_cycle st)\<rparr>"
        by (simp add: dfs.psimps)
      then show ?thesis by (simp only: gray_other_fields)
    next
      case BLACK
      with Some dom res have "st' = st" by (simp add: dfs.psimps)
      then show ?thesis by simp
    qed
  qed
next
  case (2 g node st)
  then have "st' = st\<lparr>color := (color st)(node \<mapsto> BLACK), result := result st @ [node]\<rparr>"
    by (simp add: dfs_loop.psimps)
  then show ?case by (simp only: gray_other_fields gray_unmark[of BLACK, simplified])
next
  case (3 g node dep deps st)
  note dom = 3(1) and IH1 = 3(2) and IH2 = 3(3) and IH3 = 3(4) and res = 3(5)
  show ?case
  proof (cases "dep \<notin> set (keys g)")
    case True
    with dom res have "dfs_loop g node deps st = Inr (ok, st')" by (simp add: dfs_loop.psimps)
    from IH1[OF True this] show ?thesis .
  next
    case False
    with dom res obtain ok1 st1 where d: "dfs g dep st = Inr (ok1, st1)"
      by (cases "dfs g dep st") (auto simp: dfs_loop.psimps)
    from IH2[OF False d] have g1: "gray st1 = gray st" .
    show ?thesis
    proof (cases ok1)
      case True
      with False d dom res have r: "dfs_loop g node deps st1 = Inr (ok, st')"
        by (simp add: dfs_loop.psimps)
      have "\<not> \<not> ok1" using True by simp
      from IH3[OF False d refl this r] g1 show ?thesis by simp
    next
      case ok1: False
      with False d dom res
      have "st' = st1\<lparr>in_cycle := insert node (in_cycle st1), color := (color st1)(node \<mapsto> WHITE)\<rparr>"
        by (simp add: dfs_loop.psimps)
      then have "gray st' = gray st1 - {node}"
        using gray_unmark[of WHITE "st1\<lparr>in_cycle := insert node (in_cycle st1)\<rparr>" node]
        by (simp add: gray_other_fields)
      with g1 show ?thesis by simp
    qed
  qed
qed

lemma nongray_count_mark:
  assumes "color st node = Some WHITE" "node \<in> set (keys g)"
  shows "nongray_count g (st\<lparr>color := (color st)(node \<mapsto> GRAY)\<rparr>) < nongray_count g st"
proof -
  from assms(1) have "node \<notin> gray st" by (simp add: gray_def)
  with assms(2) have "set (keys g) - insert node (gray st) \<subset> set (keys g) - gray st" by auto
  then show ?thesis
    unfolding nongray_count_def gray_mark by (intro psubset_card_mono) auto
qed

lemma nongray_count_mark_other:
  assumes "node \<notin> set (keys g)"
  shows "nongray_count g (st\<lparr>color := (color st)(node \<mapsto> GRAY)\<rparr>) = nongray_count g st"
proof -
  from assms have "set (keys g) - insert node (gray st) = set (keys g) - gray st" by auto
  then show ?thesis unfolding nongray_count_def gray_mark by simp
qed

lemma dfs_dom_total: "All dfs_dfs_loop_dom"
proof (relation "inv_image (less_than <*lex*> less_than) dfs_measure", goal_cases)
  case 1
  show ?case by (intro wf_inv_image wf_lex_prod wf_less_than)
next
  case (2 g node st x2)
  show ?case
  proof (cases "node \<in> set (keys g)")
    case True
    with 2 nongray_count_mark[of st node g] show ?thesis by (simp add: dfs_measure_def)
  next
    case False
    with nongray_count_mark_other[of node g st] show ?thesis by (simp add: dfs_measure_def)
  qed
next
  case (3 g node dep deps st)
  then show ?case by (simp add: dfs_measure_def)
next
  case (4 g node dep deps st)
  then show ?case by (simp add: dfs_measure_def)
next
  case (5 g node dep deps st b x y)
  then have "gray y = gray st" using gray_preserved_dom(1)[of g dep st x y] by auto
  then show ?case by (simp add: dfs_measure_def nongray_count_def)
qed

termination dfs
  by (rule dfs_dom_total)

lemma dfs_gray: "dfs g node st = Inr (ok, st') \<Longrightarrow> gray st' = gray st"
  using gray_preserved_dom(1) dfs_dom_total by blast

lemma dfs_loop_gray: "dfs_loop g node ds st = Inr (ok, st') \<Longrightarrow> gray st' = gray st - {node}"
  using gray_preserved_dom(2) dfs_dom_total by blast

subsection \<open>The sorter keeps its invariant\<close>

lemma precedes_append: "precedes b a xs \<Longrightarrow> precedes b a (xs @ ys)"
  unfolding precedes_def by (induction xs) (auto split: if_splits)

lemma precedes_snoc: "b \<in> set xs \<Longrightarrow> a \<notin> set xs \<Longrightarrow> precedes b a (xs @ [a])"
proof -
  assume b: "b \<in> set xs" and a: "a \<notin> set xs"
  from a have "takeWhile (\<lambda>x. x \<noteq> a) (xs @ [a]) = xs @ takeWhile (\<lambda>x. x \<noteq> a) [a]"
    by (intro takeWhile_append2) auto
  with b show ?thesis by (simp add: precedes_def)
qed

lemma precedes_filter:
  "precedes b a xs \<Longrightarrow> P b \<Longrightarrow> precedes b a (filter P xs)"
  unfolding precedes_def by (induction xs) (auto split: if_splits)

lemma precedes_in_set: "precedes b a xs \<Longrightarrow> b \<in> set xs"
  unfolding precedes_def by (auto dest: set_takeWhileD)

lemma precedes_neq: "precedes b a xs \<Longrightarrow> b \<noteq> a"
  unfolding precedes_def by (auto dest: set_takeWhileD)

lemma sort_inv_in_cycle: "sort_inv g (st\<lparr>in_cycle := s\<rparr>) = sort_inv g st"
  by (simp add: sort_inv_def)

lemma sort_inv_recolor:
  assumes "sort_inv g st" "node \<in> set (keys g)" "color st node \<noteq> Some BLACK" "c \<noteq> BLACK"
  shows "sort_inv g (st\<lparr>color := (color st)(node \<mapsto> c)\<rparr>)"
proof -
  from assms(1,2) have "dom ((color st)(node \<mapsto> c)) = set (keys g)"
    by (auto simp: sort_inv_def)
  moreover from assms(3,4)
  have "{k. ((color st)(node \<mapsto> c)) k = Some BLACK} = {k. color st k = Some BLACK}"
    by auto
  ultimately show ?thesis using assms(1) by (simp add: sort_inv_def)
qed

lemma sort_inv_finish:
  assumes inv: "sort_inv g st" and k: "node \<in> set (keys g)"
    and c: "color st node = Some GRAY"
    and deps: "\<forall>d \<in> set (graph_get g node). d \<in> set (keys g) \<longrightarrow> d \<in> set (result st)"
  shows "sort_inv g (st\<lparr>color := (color st)(node \<mapsto> BLACK), result := result st @ [node]\<rparr>)"
proof -
  from inv have bl: "{k. color st k = Some BLACK} = set (result st)" by (simp add: sort_inv_def)
  have notin: "node \<notin> set (result st)"
  proof
    assume "node \<in> set (result st)"
    with bl have "color st node = Some BLACK" by blast
    with c show False by simp
  qed
  from inv k have d: "dom ((color st)(node \<mapsto> BLACK)) = set (keys g)"
    by (auto simp: sort_inv_def)
  from bl have b: "{k. ((color st)(node \<mapsto> BLACK)) k = Some BLACK} = set (result st @ [node])"
    by auto
  from inv notin have di: "distinct (result st @ [node])" by (simp add: sort_inv_def)
  have ord: "precedes d n (result st @ [node])"
    if "n \<in> set (result st @ [node])" "d \<in> set (graph_get g n)" "d \<in> set (keys g)" for n d
  proof (cases "n = node")
    case True
    with that deps have "d \<in> set (result st)" by simp
    with notin True show ?thesis by (simp add: precedes_snoc)
  next
    case False
    with that inv have "precedes d n (result st)" by (simp add: sort_inv_def)
    then show ?thesis by (rule precedes_append)
  qed
  show ?thesis unfolding sort_inv_def using d b di ord by simp
qed

lemma dfs_post_trans:
  "dfs_post g d st ok1 st1 \<Longrightarrow> dfs_post g node st1 ok st' \<Longrightarrow> dfs_post g node st ok st'"
  unfolding dfs_post_def by (auto intro: prefix_order.trans)

lemma dfs_correct:
  "sort_inv g st \<Longrightarrow> node \<in> set (keys g) \<Longrightarrow>
     \<exists>ok st'. dfs g node st = Inr (ok, st') \<and> dfs_post g node st ok st'"
  "sort_inv g st \<Longrightarrow> node \<in> set (keys g) \<Longrightarrow> color st node = Some GRAY \<Longrightarrow>
   (\<forall>d \<in> set (graph_get g node). d \<in> set (keys g) \<longrightarrow> d \<in> set (result st) \<or> d \<in> set ds) \<Longrightarrow>
     \<exists>ok st'. dfs_loop g node ds st = Inr (ok, st') \<and> dfs_post g node st ok st'"
proof (induction g node st and g node ds st rule: dfs_dfs_loop.induct)
  case (1 g node st)
  note IH = 1(1) and inv = 1(2) and k = 1(3)
  from inv k have "node \<in> dom (color st)" by (simp add: sort_inv_def)
  then obtain c where c: "color st node = Some c" by (auto dest: domD)
  show ?case
  proof (cases c)
    case WHITE
    let ?st1 = "st\<lparr>color := (color st)(node \<mapsto> GRAY)\<rparr>"
    from c WHITE have eq: "dfs g node st = dfs_loop g node (graph_get g node) ?st1" by simp
    from c WHITE inv k have inv1: "sort_inv g ?st1" by (intro sort_inv_recolor) simp_all
    have "\<exists>ok st'. dfs_loop g node (graph_get g node) ?st1 = Inr (ok, st') \<and> dfs_post g node ?st1 ok st'"
      by (rule IH[OF c WHITE inv1 k]) simp_all
    then show ?thesis unfolding eq by (simp add: dfs_post_def)
  next
    case GRAY
    with c have "dfs g node st = Inr (False, st\<lparr>in_cycle := insert node (in_cycle st)\<rparr>)" by simp
    moreover from inv have "dfs_post g node st False (st\<lparr>in_cycle := insert node (in_cycle st)\<rparr>)"
      by (simp add: dfs_post_def sort_inv_in_cycle)
    ultimately show ?thesis by blast
  next
    case BLACK
    with c have "dfs g node st = Inr (True, st)" by simp
    moreover from inv c BLACK have "node \<in> set (result st)" by (auto simp: sort_inv_def)
    with inv have "dfs_post g node st True st" by (simp add: dfs_post_def)
    ultimately show ?thesis by blast
  qed
next
  case (2 g node st)
  let ?st' = "st\<lparr>color := (color st)(node \<mapsto> BLACK), result := result st @ [node]\<rparr>"
  from 2 have "sort_inv g ?st'" by (intro sort_inv_finish) simp_all
  then have "dfs_post g node st True ?st'" by (simp add: dfs_post_def)
  moreover have "dfs_loop g node [] st = Inr (True, ?st')" by simp
  ultimately show ?case by blast
next
  case (3 g node dep deps st)
  note IH1 = 3(1) and IH2 = 3(2) and IH3 = 3(3)
    and inv = 3(4) and k = 3(5) and c = 3(6) and deps = 3(7)
  show ?case
  proof (cases "dep \<notin> set (keys g)")
    case True
    then have eq: "dfs_loop g node (dep # deps) st = dfs_loop g node deps st" by simp
    from True deps
    have "\<forall>d \<in> set (graph_get g node). d \<in> set (keys g) \<longrightarrow> d \<in> set (result st) \<or> d \<in> set deps"
      by auto
    from IH1[OF True inv k c this] show ?thesis unfolding eq .
  next
    case False
    then have dk: "dep \<in> set (keys g)" by simp
    from IH2[OF False inv dk] obtain ok1 st1
      where d: "dfs g dep st = Inr (ok1, st1)" and p1: "dfs_post g dep st ok1 st1"
      by blast
    from dfs_gray[OF d] c have c1: "color st1 node = Some GRAY" by (auto simp: gray_def)
    from p1 have inv1: "sort_inv g st1" and pre1: "prefix (result st) (result st1)"
      by (simp_all add: dfs_post_def)
    show ?thesis
    proof (cases ok1)
      case True
      with dk d have eq: "dfs_loop g node (dep # deps) st = dfs_loop g node deps st1" by simp
      from p1 True have "dep \<in> set (result st1)" by (simp add: dfs_post_def)
      with deps pre1
      have "\<forall>d \<in> set (graph_get g node). d \<in> set (keys g) \<longrightarrow> d \<in> set (result st1) \<or> d \<in> set deps"
        by (auto dest: set_mono_prefix)
      moreover have "\<not> \<not> ok1" using True by simp
      ultimately have "\<exists>ok st'. dfs_loop g node deps st1 = Inr (ok, st') \<and> dfs_post g node st1 ok st'"
        using IH3[OF False d refl _ inv1 k c1] by blast
      then show ?thesis unfolding eq using dfs_post_trans[OF p1] by blast
    next
      case ok1: False
      let ?st' = "st1\<lparr>in_cycle := insert node (in_cycle st1), color := (color st1)(node \<mapsto> WHITE)\<rparr>"
      from ok1 dk d have eq: "dfs_loop g node (dep # deps) st = Inr (False, ?st')" by simp
      have "sort_inv g (st1\<lparr>in_cycle := insert node (in_cycle st1)\<rparr>)"
        using inv1 by (simp add: sort_inv_in_cycle)
      then have "sort_inv g ((st1\<lparr>in_cycle := insert node (in_cycle st1)\<rparr>)
            \<lparr>color := (color (st1\<lparr>in_cycle := insert node (in_cycle st1)\<rparr>))(node \<mapsto> WHITE)\<rparr>)"
        using k c1 by (intro sort_inv_recolor) simp_all
      then have "sort_inv g ?st'" by simp
      with pre1 have "dfs_post g node st False ?st'" by (simp add: dfs_post_def)
      with eq show ?thesis by blast
    qed
  qed
qed

lemma sort_loop_correct:
  "sort_inv g st \<Longrightarrow> set nodes \<subseteq> set (keys g) \<Longrightarrow>
     \<exists>st'. sort_loop g nodes st = Inr st' \<and> sort_inv g st'"
proof (induction nodes arbitrary: st)
  case Nil
  then show ?case by simp
next
  case (Cons node nodes)
  from Cons.prems have k: "node \<in> set (keys g)" and ks: "set nodes \<subseteq> set (keys g)" by simp_all
  from Cons.prems(1) k have "node \<in> dom (color st)" by (simp add: sort_inv_def)
  then obtain c where c: "color st node = Some c" by (auto dest: domD)
  show ?case
  proof (cases "c = WHITE")
    case True
    from dfs_correct(1)[OF Cons.prems(1) k] obtain ok st1
      where d: "dfs g node st = Inr (ok, st1)" and "dfs_post g node st ok st1" by blast
    then have inv1: "sort_inv g st1" by (simp add: dfs_post_def)
    from c True d have "sort_loop g (node # nodes) st = sort_loop g nodes st1" by simp
    with Cons.IH[OF inv1 ks] show ?thesis by simp
  next
    case False
    with c have "sort_loop g (node # nodes) st = sort_loop g nodes st" by simp
    with Cons.IH[OF Cons.prems(1) ks] show ?thesis by simp
  qed
qed

lemma sort_inv_init: "sort_inv g (init_state g)"
proof -
  have d: "dom (map_of (map (\<lambda>node. (node, WHITE)) (keys g))) = set (keys g)"
    by (simp add: dom_map_of_conv_image_fst image_image)
  have b: "map_of (map (\<lambda>node. (node, WHITE)) (keys g)) k \<noteq> Some BLACK" for k
    by (auto dest: map_of_SomeD)
  show ?thesis unfolding sort_inv_def init_state_def using d b by simp
qed

lemma topological_sort_run:
  "\<exists>st. sort_inv g st \<and>
        topological_sort g = Inr (filter (\<lambda>node. node \<notin> in_cycle st) (result st))"
proof -
  from sort_loop_correct[OF sort_inv_init order_refl] obtain st
    where "sort_loop g (keys g) (init_state g) = Inr st" "sort_inv g st" by blast
  then show ?thesis by (auto simp: topological_sort_def)
qed

lemma sort_inv_result_keys: "sort_inv g st \<Longrightarrow> set (result st) \<subseteq> set (keys g)"
proof
  fix n assume inv: "sort_inv g st" and "n \<in> set (result st)"
  then have "color st n = Some BLACK" by (auto simp: sort_inv_def)
  then have "n \<in> dom (color st)" by blast
  with inv show "n \<in> set (keys g)" by (simp add: sort_inv_def)
qed

lemma edge_source_is_key:
  assumes "(a, b) \<in> edges g"
  shows "a \<in> set (keys g)"
proof -
  from assms obtain ds where "map_of g a = Some ds"
    by (cases "map_of g a") (auto simp: edges_def graph_get_def)
  then have "(a, ds) \<in> set g" by (rule map_of_SomeD)
  then have "fst (a, ds) \<in> fst ` set g" by (rule imageI)
  then show ?thesis by (simp add: keys_def)
qed

lemma sort_inv_edge:
  assumes "sort_inv g st" "a \<in> set (result st)" "(a, b) \<in> edges g" "b \<in> set (keys g)"
  shows "precedes b a (result st)"
  using assms by (simp add: sort_inv_def edges_def)

lemma precedes_pos: "precedes b a xs \<Longrightarrow> pos b xs < pos a xs"
  unfolding precedes_def pos_def by (induction xs) (auto split: if_splits)

text \<open>Along a chain of edges that starts at a finished node, every node that still has an
  outgoing edge is itself finished and was appended strictly earlier.\<close>

lemma sort_inv_chain:
  assumes inv: "sort_inv g st" and a: "a \<in> set (result st)" and chain: "(a, b) \<in> (edges g)\<^sup>+"
  shows "(\<exists>c. (b, c) \<in> edges g) \<longrightarrow> b \<in> set (result st) \<and> pos b (result st) < pos a (result st)"
  using chain
proof (induction rule: trancl_induct)
  case (base y)
  show ?case
  proof
    assume "\<exists>c. (y, c) \<in> edges g"
    then have "y \<in> set (keys g)" by (auto dest: edge_source_is_key)
    from sort_inv_edge[OF inv a base this]
    show "y \<in> set (result st) \<and> pos y (result st) < pos a (result st)"
      by (simp add: precedes_in_set precedes_pos)
  qed
next
  case (step y z)
  from step.hyps(2) step.IH
  have y: "y \<in> set (result st)" and py: "pos y (result st) < pos a (result st)" by blast+
  show ?case
  proof
    assume "\<exists>c. (z, c) \<in> edges g"
    then have "z \<in> set (keys g)" by (auto dest: edge_source_is_key)
    from sort_inv_edge[OF inv y step.hyps(2) this]
    have "z \<in> set (result st)" "pos z (result st) < pos y (result st)"
      by (simp_all add: precedes_in_set precedes_pos)
    with py show "z \<in> set (result st) \<and> pos z (result st) < pos a (result st)" by simp
  qed
qed

lemma sort_inv_no_cycle:
  assumes inv: "sort_inv g st" and k: "k \<in> set (result st)"
    and reach: "(k, c) \<in> (edges g)\<^sup>*" and cyc: "(c, c) \<in> (edges g)\<^sup>+"
  shows False
proof -
  from cyc have succ: "\<exists>z. (c, z) \<in> edges g" by (auto dest: tranclD)
  have c: "c \<in> set (result st)"
  proof (cases "k = c")
    case True
    with k show ?thesis by simp
  next
    case False
    with reach have "(k, c) \<in> (edges g)\<^sup>+" by (auto dest: rtranclD)
    from sort_inv_chain[OF inv k this] succ show ?thesis by blast
  qed
  from sort_inv_chain[OF inv c cyc] succ show False by blast
qed

text \<open>
  C2. Whenever a cycle can be reached from a key along a chain of graph edges, that key is
  missing from the install order returned by \<open>topological_sort\<close>, whether or not the key
  lies on the cycle itself.  For the graph \<open>{A: [B], B: [C], C: [B]}\<close> the order is empty.
\<close>

theorem cycle_taint_excluded:
  "(topological_sort g = Inr order \<and> (k, c) \<in> (edges g)\<^sup>* \<and> (c, c) \<in> (edges g)\<^sup>+
      \<longrightarrow> k \<notin> set order)
   \<and> topological_sort [(''A'', [''B'']), (''B'', [''C'']), (''C'', [''B''])] = Inr []"
proof
  show "topological_sort g = Inr order \<and> (k, c) \<in> (edges g)\<^sup>* \<and> (c, c) \<in> (edges g)\<^sup>+
      \<longrightarrow> k \<notin> set order"
  proof (intro impI notI, elim conjE)
    assume run: "topological_sort g = Inr order"
      and reach: "(k, c) \<in> (edges g)\<^sup>*" and cyc: "(c, c) \<in> (edges g)\<^sup>+"
      and k: "k \<in> set order"
    from topological_sort_run[of g] run obtain st
      where inv: "sort_inv g st"
        and ord: "order = filter (\<lambda>node. node \<notin> in_cycle st) (result st)"
      by auto
    from k ord have "k \<in> set (result st)" by simp
    from sort_inv_no_cycle[OF inv this reach cyc] show False .
  qed
  show "topological_sort [(''A'', [''B'']), (''B'', [''C'']), (''C'', [''B''])] = Inr []"
    by code_simp
qed

theorem cycle_taint_excluded_witness:
  "topological_sort [(''A'', [''B'']), (''B'', [''C'']), (''C'', [''B''])] = Inr []
   \<and> (''A'', ''B'') \<in> (edges [(''A'', [''B'']), (''B'', [''C'']), (''C'', [''B''])])\<^sup>*
   \<and> (''B'', ''B'') \<in> (edges [(''A'', [''B'']), (''B'', [''C'']), (''C'', [''B''])])\<^sup>+
   \<and> ''A'' \<notin> set ([] :: name list)"
proof -
  let ?g = "[(''A'', [''B'']), (''B'', [''C'']), (''C'', [''B''])]"
  have ab: "(''A'', ''B'') \<in> edges ?g" by (simp add: edges_def graph_get_def)
  have bc: "(''B'', ''C'') \<in> edges ?g" by (simp add: edges_def graph_get_def)
  have cb: "(''C'', ''B'') \<in> edges ?g" by (simp add: edges_def graph_get_def)
  from ab have reach: "(''A'', ''B'') \<in> (edges ?g)\<^sup>*" by (rule r_into_rtrancl)
  from bc cb have cyc: "(''B'', ''B'') \<in> (edges ?g)\<^sup>+"
    by (rule trancl_into_trancl2[OF _ r_into_trancl])
  from cycle_taint_excluded[of ?g "[]" "''A''" "''B''"] reach cyc show ?thesis by blast
qed

text \<open>
  C3. For every edge \<open>A -> B\<close> of the input graph, if both \<open>A\<close> and \<open>B\<close> occur in the
  install order returned by \<open>topological_sort\<close>, then \<open>B\<close> occurs before \<open>A\<close>.
\<close>

theorem install_order_respects_edges:
  assumes "topological_sort g = Inr order"
    and "(a, b) \<in> edges g"
    and "a \<in> set order"
    and "b \<in> set order"
  shows "precedes b a order"
proof -
  from topological_sort_run[of g] assms(1) obtain st
    where inv: "sort_inv g st"
      and ord: "order = filter (\<lambda>node. node \<notin> in_cycle st) (result st)"
    by auto
  from assms(3,4) ord have a: "a \<in> set (result st)" and b: "b \<in> set (result st)"
    and nb: "b \<notin> in_cycle st" by simp_all
  from sort_inv_result_keys[OF inv] b have "b \<in> set (keys g)" by blast
  from sort_inv_edge[OF inv a assms(2) this] have "precedes b a (result st)" .
  from precedes_filter[OF this, of "\<lambda>node. node \<notin> in_cycle st"] nb ord show ?thesis by simp
qed

theorem install_order_respects_edges_witness:
  "topological_sort [(''A'', [''B'', ''C'']), (''B'', [''D'']), (''C'', [''D'']), (''D'', [])]
     = Inr [''D'', ''B'', ''C'', ''A'']
   \<and> (''A'', ''B'') \<in> edges [(''A'', [''B'', ''C'']), (''B'', [''D'']), (''C'', [''D'']), (''D'', [])]
   \<and> ''A'' \<in> set [''D'', ''B'', ''C'', ''A'']
   \<and> ''B'' \<in> set [''D'', ''B'', ''C'', ''A'']
   \<and> precedes ''B'' ''A'' [''D'', ''B'', ''C'', ''A'']"
proof -
  let ?g = "[(''A'', [''B'', ''C'']), (''B'', [''D'']), (''C'', [''D'']), (''D'', [])]"
  have run: "topological_sort ?g = Inr [''D'', ''B'', ''C'', ''A'']" by code_simp
  have ab: "(''A'', ''B'') \<in> edges ?g" by (simp add: edges_def graph_get_def)
  have a: "''A'' \<in> set [''D'', ''B'', ''C'', ''A'']" by simp
  have b: "''B'' \<in> set [''D'', ''B'', ''C'', ''A'']" by simp
  from install_order_respects_edges[OF run ab a b] run ab a b show ?thesis by blast
qed

text \<open>
  C8. \<open>topological_sort\<close> returns an install order on every input graph: the lookup
  \<open>color[node]\<close> never fails with a \<open>KeyError\<close> and the recursion always ends.  A name that
  occurs only inside a dependency list and is not a key of the graph is skipped and never
  occurs in the order.
\<close>

theorem topological_sort_total:
  "\<exists>order. topological_sort g = Inr order \<and> (\<forall>d. d \<notin> set (keys g) \<longrightarrow> d \<notin> set order)"
proof -
  from topological_sort_run[of g] obtain st
    where inv: "sort_inv g st"
      and run: "topological_sort g = Inr (filter (\<lambda>node. node \<notin> in_cycle st) (result st))"
    by blast
  from sort_inv_result_keys[OF inv]
  have "\<forall>d. d \<notin> set (keys g) \<longrightarrow> d \<notin> set (filter (\<lambda>node. node \<notin> in_cycle st) (result st))"
    by auto
  with run show ?thesis by blast
qed

theorem topological_sort_total_witness:
  "topological_sort [(''A'', [''X'', ''B'']), (''B'', [''Y''])] = Inr [''B'', ''A'']
   \<and> ''X'' \<notin> set (keys [(''A'', [''X'', ''B'']), (''B'', [''Y''])])
   \<and> ''X'' \<notin> set [''B'', ''A'']"
proof -
  let ?g = "[(''A'', [''X'', ''B'']), (''B'', [''Y''])]"
  have run: "topological_sort ?g = Inr [''B'', ''A'']" by code_simp
  have x: "''X'' \<notin> set (keys ?g)" by (simp add: keys_def)
  from topological_sort_total[of ?g] run x show ?thesis by auto
qed

text \<open>
  C10. The install order returned by \<open>topological_sort\<close> lists no name twice, and every
  name in it is a key of the input graph.
\<close>

theorem install_order_distinct_keys:
  assumes "topological_sort g = Inr order"
  shows "distinct order \<and> set order \<subseteq> set (keys g)"
proof -
  from topological_sort_run[of g] assms obtain st
    where inv: "sort_inv g st"
      and ord: "order = filter (\<lambda>node. node \<notin> in_cycle st) (result st)"
    by auto
  from inv have "distinct (result st)" by (simp add: sort_inv_def)
  with sort_inv_result_keys[OF inv] ord show ?thesis by auto
qed

theorem install_order_distinct_keys_witness:
  "topological_sort [(''A'', [''B'', ''B'', ''C'']), (''B'', [''C'']), (''C'', [])]
     = Inr [''C'', ''B'', ''A'']
   \<and> distinct [''C'', ''B'', ''A'']
   \<and> set [''C'', ''B'', ''A''] \<subseteq> set (keys [(''A'', [''B'', ''B'', ''C'']), (''B'', [''C'']), (''C'', [])])"
proof -
  let ?g = "[(''A'', [''B'', ''B'', ''C'']), (''B'', [''C'']), (''C'', [])]"
  have run: "topological_sort ?g = Inr [''C'', ''B'', ''A'']" by code_simp
  from install_order_distinct_keys[OF run] run show ?thesis by blast
qed

subsection \<open>The sorter leaves out only what reaches a cycle\<close>








subsection \<open>Properties of the builders\<close>

declare dfs_build_graph4.simps [simp del] dfs_build_graph5.simps [simp del]

lemma fold_invariant:
  assumes "I s" and "\<And>x s. x \<in> set xs \<Longrightarrow> I s \<Longrightarrow> I (f x s)"
  shows "I (fold f xs s)"
  using assms by (induction xs arbitrary: s) simp_all

lemma dfs5_terminal:
  "\<not> active5 current depth max_depth flt visited st \<Longrightarrow>
   dfs_build_graph5 current depth max_depth flt visited st src = st"
  by (subst dfs_build_graph5.simps) (auto simp: active5_def)

lemma dfs5_failed:
  "active5 current depth max_depth flt visited st \<Longrightarrow> src current = None \<Longrightarrow>
   dfs_build_graph5 current depth max_depth flt visited st src =
     st\<lparr>queried := queried st @ [(current, depth)],
        diagnostics := diagnostics st @ [current],
        processed := insert current (processed st)\<rparr>"
  by (subst dfs_build_graph5.simps) (auto simp: active5_def)

lemma dfs5_expand:
  assumes "active5 current depth max_depth flt visited st" "src current = Some deps"
  shows "dfs_build_graph5 current depth max_depth flt visited st src =
     (let st2 = fold (\<lambda>dep s. dfs_build_graph5 dep (depth + 1) max_depth flt
                                 (insert current visited) s src)
                     (keep flt deps)
                     (st\<lparr>graph := AList.update current (keep flt deps) (graph st),
                         queried := queried st @ [(current, depth)]\<rparr>)
      in st2\<lparr>processed := insert current (processed st2)\<rparr>)"
  using assms by (subst dfs_build_graph5.simps) (auto simp: active5_def keep_def Let_def)

lemma dfs4_terminal:
  "\<not> active4 current depth max_depth flt visited \<Longrightarrow>
   dfs_build_graph4 current depth max_depth flt visited st src = st"
  by (subst dfs_build_graph4.simps) (auto simp: active4_def)

lemma dfs4_failed:
  "active4 current depth max_depth flt visited \<Longrightarrow> src current = None \<Longrightarrow>
   dfs_build_graph4 current depth max_depth flt visited st src =
     (touch4 current st)\<lparr>queried := queried (touch4 current st) @ [(current, depth)],
        diagnostics := diagnostics (touch4 current st) @ [current]\<rparr>"
  by (subst dfs_build_graph4.simps) (auto simp: active4_def touch4_def Let_def)

lemma dfs4_expand:
  assumes "active4 current depth max_depth flt visited" "src current = Some deps"
  shows "dfs_build_graph4 current depth max_depth flt visited st src =
     fold (step4 (depth + 1) max_depth flt (insert current visited) src)
          (keep flt deps)
          ((touch4 current st)\<lparr>graph := AList.update current (keep flt deps) (graph (touch4 current st)),
                      queried := queried (touch4 current st) @ [(current, depth)]\<rparr>)"
  using assms
  by (subst dfs_build_graph4.simps) (auto simp: active4_def keep_def touch4_def Let_def step4_def[abs_def])

lemma dfs5_cases [case_names terminal failed expand]:
  assumes "\<And>current depth max_depth flt visited st src.
             \<not> active5 current depth max_depth flt visited st \<Longrightarrow>
             P current depth max_depth flt visited st src"
    and "\<And>current depth max_depth flt visited st src.
             active5 current depth max_depth flt visited st \<Longrightarrow> src current = None \<Longrightarrow>
             P current depth max_depth flt visited st src"
    and "\<And>current depth max_depth flt visited st src deps.
             active5 current depth max_depth flt visited st \<Longrightarrow> src current = Some deps \<Longrightarrow>
             (\<And>dep s. dep \<in> set (keep flt deps) \<Longrightarrow>
                        P dep (depth + 1) max_depth flt (insert current visited) s src) \<Longrightarrow>
             P current depth max_depth flt visited st src"
  shows "P current depth max_depth flt visited (st :: memo_state) (src :: dependency_source)"
proof (induction current depth max_depth flt visited st src rule: dfs_build_graph5.induct)
  case (1 current depth max_depth flt visited st src)
  show ?case
  proof (cases "active5 current depth max_depth flt visited st")
    case False
    then show ?thesis by (rule assms(1))
  next
    case True
    show ?thesis
    proof (cases "src current")
      case None
      with True show ?thesis by (rule assms(2))
    next
      case (Some deps)
      from True have c: "\<not> max_depth < depth" "\<not> should_skip_package current flt"
        "current \<notin> visited" "current \<notin> processed st"
        by (simp_all add: active5_def)
      have "P dep (depth + 1) max_depth flt (insert current visited) s src"
        if "dep \<in> set (keep flt deps)" for dep s
      proof -
        from that have "dep \<in> set (filter (\<lambda>dep. \<not> should_skip_package dep flt) deps)"
          by (simp add: keep_def)
        from 1[OF c Some refl refl this] show ?thesis .
      qed
      with True Some show ?thesis by (rule assms(3))
    qed
  qed
qed

lemma dfs4_cases [case_names terminal failed expand]:
  assumes "\<And>current depth max_depth flt visited st src.
             \<not> active4 current depth max_depth flt visited \<Longrightarrow>
             P current depth max_depth flt visited st src"
    and "\<And>current depth max_depth flt visited st src.
             active4 current depth max_depth flt visited \<Longrightarrow> src current = None \<Longrightarrow>
             P current depth max_depth flt visited st src"
    and "\<And>current depth max_depth flt visited st src deps.
             active4 current depth max_depth flt visited \<Longrightarrow> src current = Some deps \<Longrightarrow>
             (\<And>dep s. dep \<in> set (keep flt deps) \<Longrightarrow>
                        P dep (depth + 1) max_depth flt (insert current visited) s src) \<Longrightarrow>
             P current depth max_depth flt visited st src"
  shows "P current depth max_depth flt visited (st :: build_state) (src :: dependency_source)"
proof (induction current depth max_depth flt visited st src rule: dfs_build_graph4.induct)
  case (1 current depth max_depth flt visited st src)
  show ?case
  proof (cases "active4 current depth max_depth flt visited")
    case False
    then show ?thesis by (rule assms(1))
  next
    case True
    show ?thesis
    proof (cases "src current")
      case None
      with True show ?thesis by (rule assms(2))
    next
      case (Some deps)
      from True have c: "\<not> max_depth < depth" "\<not> should_skip_package current flt"
        "current \<notin> visited"
        by (simp_all add: active4_def)
      have "P dep (depth + 1) max_depth flt (insert current visited) s src"
        if d: "dep \<in> set (keep flt deps)" for dep s
      proof (cases "dep \<notin> set (keys (graph s)) \<or> depth + 1 \<le> max_depth")
        case True
        from d have m: "dep \<in> set (filter (\<lambda>dep. \<not> should_skip_package dep flt) deps)"
          by (simp add: keep_def)
        from 1[OF c refl Some refl refl m True] show ?thesis .
      next
        case False
        then have "\<not> active4 dep (depth + 1) max_depth flt (insert current visited)"
          by (simp add: active4_def)
        then show ?thesis by (rule assms(1))
      qed
      with True Some show ?thesis by (rule assms(3))
    qed
  qed
qed

lemma step4_eq:
  "step4 depth max_depth flt visited src dep s = dfs_build_graph4 dep depth max_depth flt visited s src"
  by (simp add: step4_def dfs4_terminal active4_def)

lemma fold_identity: "(\<And>x s. x \<in> set xs \<Longrightarrow> f x s = s) \<Longrightarrow> fold f xs s = s"
  by (induction xs arbitrary: s) simp_all

lemma set_update_subset: "set (AList.update k v al) \<subseteq> insert (k, v) (set al)"
  by (induction al) auto


lemma entries_ok_update: "entries_ok Q g \<Longrightarrow> Q k v \<Longrightarrow> entries_ok Q (AList.update k v g)"
  using set_update_subset[of k v g] by (auto simp: entries_ok_def)

lemma dfs5_entries:
  assumes "\<And>k deps. \<not> should_skip_package k flt \<Longrightarrow> src k = Some deps \<Longrightarrow> Q k (keep flt deps)"
  shows "entries_ok Q (graph st) \<Longrightarrow>
         entries_ok Q (graph (dfs_build_graph5 current depth max_depth flt visited st src))"
  using assms
proof (induction current depth max_depth flt visited st src rule: dfs5_cases)
  case (terminal current depth max_depth flt visited st src)
  then show ?case by (simp add: dfs5_terminal)
next
  case (failed current depth max_depth flt visited st src)
  then show ?case by (simp add: dfs5_failed)
next
  case (expand current depth max_depth flt visited st src deps)
  let ?st1 = "st\<lparr>graph := AList.update current (keep flt deps) (graph st),
                   queried := queried st @ [(current, depth)]\<rparr>"
  let ?f = "\<lambda>dep s. dfs_build_graph5 dep (depth + 1) max_depth flt (insert current visited) s src"
  from expand(1,2,5) have "Q current (keep flt deps)" by (simp add: active5_def)
  with expand(4) have "entries_ok Q (graph ?st1)" by (simp add: entries_ok_update)
  then have "entries_ok Q (graph (fold ?f (keep flt deps) ?st1))"
    by (rule fold_invariant[where I="\<lambda>s. entries_ok Q (graph s)"]) (rule expand(3), assumption+, rule expand(5))
  then show ?case
    unfolding dfs5_expand[where src=src, OF expand(1,2)] by (simp add: Let_def)
qed

lemma dfs4_entries:
  assumes "\<And>k deps. \<not> should_skip_package k flt \<Longrightarrow> src k = Some deps \<Longrightarrow> Q k (keep flt deps)"
    and "\<And>k. \<not> should_skip_package k flt \<Longrightarrow> Q k []"
  shows "entries_ok Q (graph st) \<Longrightarrow>
         entries_ok Q (graph (dfs_build_graph4 current depth max_depth flt visited st src))"
  using assms
proof (induction current depth max_depth flt visited st src rule: dfs4_cases)
  case (terminal current depth max_depth flt visited st src)
  then show ?case by (simp add: dfs4_terminal)
next
  case (failed current depth max_depth flt visited st src)
  from failed(1,5) have "Q current []" by (simp add: active4_def)
  with failed(3) have "entries_ok Q (graph (touch4 current st))"
    by (simp add: touch4_def entries_ok_update)
  then show ?case by (simp add: dfs4_failed[where src=src, OF failed(1,2)])
next
  case (expand current depth max_depth flt visited st src deps)
  let ?st0 = "touch4 current st"
  let ?st1 = "?st0\<lparr>graph := AList.update current (keep flt deps) (graph ?st0),
                   queried := queried ?st0 @ [(current, depth)]\<rparr>"
  let ?f = "step4 (depth + 1) max_depth flt (insert current visited) src"
  from expand(1,6) have "Q current []" by (simp add: active4_def)
  with expand(4) have "entries_ok Q (graph ?st0)"
    by (simp add: touch4_def entries_ok_update)
  moreover from expand(1,2,5) have "Q current (keep flt deps)" by (simp add: active4_def)
  ultimately have "entries_ok Q (graph ?st1)" by (simp add: entries_ok_update)
  then have "entries_ok Q (graph (fold ?f (keep flt deps) ?st1))"
  proof (rule fold_invariant[where I="\<lambda>s. entries_ok Q (graph s)"])
    fix x and s :: build_state
    assume "x \<in> set (keep flt deps)" "entries_ok Q (graph s)"
    then show "entries_ok Q (graph (?f x s))"
      unfolding step4_eq by (rule expand(3)) (rule expand(5), assumption+, rule expand(6))
  qed
  then show ?case
    unfolding dfs4_expand[where src=src, OF expand(1,2)] .
qed

lemma dfs5_log:
  assumes "\<And>n d. \<not> should_skip_package n flt \<Longrightarrow> L \<le> d \<Longrightarrow> d \<le> max_depth \<Longrightarrow> R (n, d)"
  shows "L \<le> depth \<Longrightarrow> \<forall>e \<in> set (queried st). R e \<Longrightarrow>
         \<forall>e \<in> set (queried (dfs_build_graph5 current depth max_depth flt visited st src)). R e"
  using assms
proof (induction current depth max_depth flt visited st src rule: dfs5_cases)
  case (terminal current depth max_depth flt visited st src)
  then show ?case by (simp add: dfs5_terminal)
next
  case (failed current depth max_depth flt visited st src)
  from failed(1,3,5) have "R (current, depth)" by (simp add: active5_def)
  with failed(4) show ?case by (simp add: dfs5_failed[where src=src, OF failed(1,2)])
next
  case (expand current depth max_depth flt visited st src deps)
  let ?st1 = "st\<lparr>graph := AList.update current (keep flt deps) (graph st),
                   queried := queried st @ [(current, depth)]\<rparr>"
  let ?f = "\<lambda>dep s. dfs_build_graph5 dep (depth + 1) max_depth flt (insert current visited) s src"
  from expand(1,4,6) have "R (current, depth)" by (simp add: active5_def)
  with expand(5) have "\<forall>e \<in> set (queried ?st1). R e" by simp
  then have "\<forall>e \<in> set (queried (fold ?f (keep flt deps) ?st1)). R e"
  proof (rule fold_invariant[where I="\<lambda>s. \<forall>e \<in> set (queried s). R e"])
    fix x and s :: memo_state
    assume x: "x \<in> set (keep flt deps)" and s: "\<forall>e \<in> set (queried s). R e"
    from expand(4) have "L \<le> depth + 1" by simp
    from expand(3)[OF x this s expand(6)]
    show "\<forall>e \<in> set (queried (?f x s)). R e" by simp
  qed
  then show ?case
    unfolding dfs5_expand[where src=src, OF expand(1,2)] by (simp add: Let_def)
qed

lemma dfs4_log:
  assumes "\<And>n d. \<not> should_skip_package n flt \<Longrightarrow> L \<le> d \<Longrightarrow> d \<le> max_depth \<Longrightarrow> R (n, d)"
  shows "L \<le> depth \<Longrightarrow> \<forall>e \<in> set (queried st). R e \<Longrightarrow>
         \<forall>e \<in> set (queried (dfs_build_graph4 current depth max_depth flt visited st src)). R e"
  using assms
proof (induction current depth max_depth flt visited st src rule: dfs4_cases)
  case (terminal current depth max_depth flt visited st src)
  then show ?case by (simp add: dfs4_terminal)
next
  case (failed current depth max_depth flt visited st src)
  from failed(1,3,5) have "R (current, depth)" by (simp add: active4_def)
  with failed(4) show ?case
    by (simp add: dfs4_failed[where src=src, OF failed(1,2)] touch4_def)
next
  case (expand current depth max_depth flt visited st src deps)
  let ?st0 = "touch4 current st"
  let ?st1 = "?st0\<lparr>graph := AList.update current (keep flt deps) (graph ?st0),
                   queried := queried ?st0 @ [(current, depth)]\<rparr>"
  let ?f = "step4 (depth + 1) max_depth flt (insert current visited) src"
  from expand(1,4,6) have "R (current, depth)" by (simp add: active4_def)
  with expand(5) have "\<forall>e \<in> set (queried ?st1). R e" by (simp add: touch4_def)
  then have "\<forall>e \<in> set (queried (fold ?f (keep flt deps) ?st1)). R e"
  proof (rule fold_invariant[where I="\<lambda>s. \<forall>e \<in> set (queried s). R e"])
    fix x and s :: build_state
    assume x: "x \<in> set (keep flt deps)" and s: "\<forall>e \<in> set (queried s). R e"
    from expand(4) have "L \<le> depth + 1" by simp
    from expand(3)[OF x this s expand(6)]
    show "\<forall>e \<in> set (queried (?f x s)). R e" unfolding step4_eq by simp
  qed
  then show ?case
    unfolding dfs4_expand[where src=src, OF expand(1,2)] .
qed

















text \<open>
  C4. With depth bound 0 the root is still expanded: its graph entry is the list the
  source reports for it, without the names the filter excludes.  The dependencies stay in
  that list as dangling edge targets and never become keys.  The graph is \<open>{A: []}\<close> only
  when that list is empty; for the diamond source it is \<open>{A: [B, C]}\<close>.
\<close>

theorem depth_zero_graph:
  assumes "\<not> should_skip_package package flt" and "src package = Some deps"
  shows "graph (build_graph5 package 0 flt src)
           = [(package, filter (\<lambda>dep. \<not> should_skip_package dep flt) deps)]
       \<and> graph (build_graph4 package 0 flt src)
           = [(package, filter (\<lambda>dep. \<not> should_skip_package dep flt) deps)]"
proof
  from assms(1) have a5: "active5 package 0 0 flt {} empty_memo_state"
    by (simp add: active5_def empty_memo_state_def)
  have "fold (\<lambda>dep s. dfs_build_graph5 dep (0 + 1) 0 flt (insert package {}) s src) xs s = s"
    for xs and s :: memo_state
    by (rule fold_identity) (simp add: dfs5_terminal active5_def)
  then show "graph (build_graph5 package 0 flt src)
           = [(package, filter (\<lambda>dep. \<not> should_skip_package dep flt) deps)]"
    unfolding build_graph5_def dfs5_expand[where src=src, OF a5 assms(2)]
    by (simp add: Let_def empty_memo_state_def keep_def)
next
  from assms(1) have a4: "active4 package 0 0 flt {}"
    by (simp add: active4_def)
  have "fold (step4 (0 + 1) 0 flt (insert package {}) src) xs s = s"
    for xs and s :: build_state
    unfolding step4_eq[abs_def] by (rule fold_identity) (simp add: dfs4_terminal active4_def)
  then show "graph (build_graph4 package 0 flt src)
           = [(package, filter (\<lambda>dep. \<not> should_skip_package dep flt) deps)]"
    unfolding build_graph4_def dfs4_expand[where src=src, OF a4 assms(2)]
    by (simp add: touch4_def empty_build_state_def keep_def keys_def)
qed

theorem depth_zero_graph_witness:
  "\<not> should_skip_package ''A'' ''Test''
   \<and> diamond ''A'' = Some [''B'', ''C'']
   \<and> graph (build_graph5 ''A'' 0 ''Test'' diamond) = [(''A'', [''B'', ''C''])]
   \<and> graph (build_graph4 ''A'' 0 ''Test'' diamond) = [(''A'', [''B'', ''C''])]"
proof -
  have s: "\<not> should_skip_package ''A'' ''Test''" by code_simp
  have d: "diamond ''A'' = Some [''B'', ''C'']" by (simp add: diamond_def)
  have f: "filter (\<lambda>dep. \<not> should_skip_package dep ''Test'') [''B'', ''C''] = [''B'', ''C'']"
    by code_simp
  from depth_zero_graph[where src=diamond, OF s d] s d f show ?thesis by simp
qed

text \<open>
  The graph of a run with depth bound 0 is not \<open>{A: []}\<close> when the source reports
  dependencies for the root: for the diamond source it is \<open>{A: [B, C]}\<close> in both stages.
\<close>

theorem depth_zero_graph_counterexample:
  "graph (build_graph5 ''A'' 0 [] diamond) \<noteq> [(''A'', [])]
   \<and> graph (build_graph4 ''A'' 0 [] diamond) \<noteq> [(''A'', [])]"
proof -
  have "graph (build_graph5 ''A'' 0 [] diamond) = [(''A'', [''B'', ''C''])]" by code_simp
  moreover have "graph (build_graph4 ''A'' 0 [] diamond) = [(''A'', [''B'', ''C''])]" by code_simp
  ultimately show ?thesis by simp
qed

text \<open>
  The manifest parser of stage 5 returns no name twice.  The one of stage 4 compares pairs
  of identifier and version, so a name declared with two versions is returned twice.
\<close>

lemma visit_id_distinct: "distinct deps \<Longrightarrow> distinct (visit_id dep deps)"
  by (simp add: visit_id_def split: option.splits)

lemma nuspec_dependency_ids_distinct: "distinct (nuspec_dependency_ids root)"
proof -
  have inner: "distinct (fold visit_id xs deps)" if "distinct deps" for xs deps
    using that by (rule fold_invariant) (rule visit_id_distinct)
  have outer: "distinct (fold (\<lambda>group deps. fold visit_id group deps) gs deps)"
    if "distinct deps" for gs deps
    using that by (rule fold_invariant) (rule inner)
  show ?thesis
    by (simp add: nuspec_dependency_ids_def inner outer split: option.splits)
qed

lemma extract_dependencies_repeats:
  "extract_dependencies
     (Some (Some \<lparr>groups = [[(Some ''X'', Some ''1.0'')], [(Some ''X'', Some ''2.0'')]],
                  direct = []\<rparr>))
   = [''X'', ''X'']"
  by code_simp

text \<open>
  C5. The builder stores the list the dependency source returns, minus the filtered names,
  and removes no duplicates itself: the static source \<open>{A: [B, B]}\<close> yields the entry
  \<open>A: [B, B]\<close>.  If every list the source returns is free of duplicates, then so is every
  list stored in the graph.
\<close>

theorem graph_lists_distinct:
  assumes "\<forall>n ds. src n = Some ds \<longrightarrow> distinct ds"
  shows "(\<forall>(k, ds) \<in> set (graph (build_graph5 package max_depth flt src)). distinct ds)
       \<and> (\<forall>(k, ds) \<in> set (graph (build_graph4 package max_depth flt src)). distinct ds)"
proof
  have q: "distinct (keep flt deps)" if "src k = Some deps" for k deps
    using that assms by (simp add: keep_def)
  have "entries_ok (\<lambda>k ds. distinct ds) (graph (build_graph5 package max_depth flt src))"
    unfolding build_graph5_def
    by (rule dfs5_entries) (simp_all add: q entries_ok_def empty_memo_state_def)
  then show "\<forall>(k, ds) \<in> set (graph (build_graph5 package max_depth flt src)). distinct ds"
    by (simp add: entries_ok_def)
  have "entries_ok (\<lambda>k ds. distinct ds) (graph (build_graph4 package max_depth flt src))"
    unfolding build_graph4_def
    by (rule dfs4_entries) (simp_all add: q entries_ok_def empty_build_state_def)
  then show "\<forall>(k, ds) \<in> set (graph (build_graph4 package max_depth flt src)). distinct ds"
    by (simp add: entries_ok_def)
qed

theorem graph_lists_distinct_witness:
  "graph (build_graph5 ''A'' 3 [] diamond)
       = [(''A'', [''B'', ''C'']), (''B'', [''D'']), (''D'', []), (''C'', [''D''])]
   \<and> list_all (\<lambda>(k, ds). distinct ds) (graph (build_graph5 ''A'' 3 [] diamond))
   \<and> list_all (\<lambda>(k, ds). distinct ds) (graph (build_graph4 ''A'' 3 [] diamond))"
proof -
  have h: "\<forall>n ds. diamond n = Some ds \<longrightarrow> distinct ds"
    by (auto simp: diamond_def split: if_splits)
  have g: "graph (build_graph5 ''A'' 3 [] diamond)
       = [(''A'', [''B'', ''C'']), (''B'', [''D'']), (''D'', []), (''C'', [''D''])]"
    by code_simp
  from graph_lists_distinct[OF h, of "''A''" 3 "[]"] g show ?thesis
    unfolding list_all_iff by blast
qed

text \<open>
  A static repository may list a name twice; both builders store the list as it is.
\<close>

theorem graph_lists_distinct_counterexample:
  "map_of (graph (build_graph5 ''A'' 1 [] duplicated)) ''A'' = Some [''B'', ''B'']
   \<and> map_of (graph (build_graph4 ''A'' 1 [] duplicated)) ''A'' = Some [''B'', ''B'']
   \<and> \<not> distinct [''B'', ''B'']"
proof -
  have "map_of (graph (build_graph5 ''A'' 1 [] duplicated)) ''A'' = Some [''B'', ''B'']"
    by code_simp
  moreover have "map_of (graph (build_graph4 ''A'' 1 [] duplicated)) ''A'' = Some [''B'', ''B'']"
    by code_simp
  ultimately show ?thesis by simp
qed

text \<open>
  C7. With a non-empty filter substring, no name that contains the substring occurs in the
  graph a run produces, neither as a key nor inside a dependency list, and no such name is
  ever passed to the dependency source.
\<close>

theorem filter_excludes_names:
  assumes "flt \<noteq> []"
  shows "(\<forall>(k, ds) \<in> set (graph (build_graph5 package max_depth flt src)).
            \<not> sublist flt k \<and> (\<forall>d \<in> set ds. \<not> sublist flt d))
       \<and> (\<forall>e \<in> set (queried (build_graph5 package max_depth flt src)). \<not> sublist flt (fst e))
       \<and> (\<forall>(k, ds) \<in> set (graph (build_graph4 package max_depth flt src)).
            \<not> sublist flt k \<and> (\<forall>d \<in> set ds. \<not> sublist flt d))
       \<and> (\<forall>e \<in> set (queried (build_graph4 package max_depth flt src)). \<not> sublist flt (fst e))"
proof -
  let ?Q = "\<lambda>k ds. \<not> sublist flt k \<and> (\<forall>d \<in> set ds. \<not> sublist flt d)"
  let ?R = "\<lambda>e :: name \<times> int. \<not> sublist flt (fst e)"
  from assms have skip: "should_skip_package n flt = sublist flt n" for n
    by (simp add: should_skip_package_def)
  have g5: "entries_ok ?Q (graph (build_graph5 package max_depth flt src))"
    unfolding build_graph5_def
    by (rule dfs5_entries) (simp_all add: skip keep_def entries_ok_def empty_memo_state_def)
  have g4: "entries_ok ?Q (graph (build_graph4 package max_depth flt src))"
    unfolding build_graph4_def
    by (rule dfs4_entries) (simp_all add: skip keep_def entries_ok_def empty_build_state_def)
  have q5: "\<forall>e \<in> set (queried (build_graph5 package max_depth flt src)). ?R e"
    unfolding build_graph5_def
    by (rule dfs5_log[where L=0]) (simp_all add: skip empty_memo_state_def)
  have q4: "\<forall>e \<in> set (queried (build_graph4 package max_depth flt src)). ?R e"
    unfolding build_graph4_def
    by (rule dfs4_log[where L=0]) (simp_all add: skip empty_build_state_def)
  from g5 g4 q5 q4 show ?thesis by (simp add: entries_ok_def)
qed

theorem filter_excludes_names_witness:
  "''Test'' \<noteq> []
   \<and> graph (build_graph5 ''App'' 5 ''Test'' app_source) = [(''App'', [''Core'']), (''Core'', [])]
   \<and> list_all (\<lambda>(k, ds). \<not> sublist ''Test'' k \<and> list_all (\<lambda>d. \<not> sublist ''Test'' d) ds)
         (graph (build_graph5 ''App'' 5 ''Test'' app_source))
   \<and> list_all (\<lambda>e. \<not> sublist ''Test'' (fst e)) (queried (build_graph5 ''App'' 5 ''Test'' app_source))
   \<and> list_all (\<lambda>(k, ds). \<not> sublist ''Test'' k \<and> list_all (\<lambda>d. \<not> sublist ''Test'' d) ds)
         (graph (build_graph4 ''App'' 5 ''Test'' app_source))
   \<and> list_all (\<lambda>e. \<not> sublist ''Test'' (fst e)) (queried (build_graph4 ''App'' 5 ''Test'' app_source))"
proof -
  have n: "''Test'' \<noteq> []" by simp
  have g: "graph (build_graph5 ''App'' 5 ''Test'' app_source) = [(''App'', [''Core'']), (''Core'', [])]"
    by code_simp
  from filter_excludes_names[OF n, of "''App''" 5 app_source] n g show ?thesis
    unfolding list_all_iff by blast
qed

text \<open>
  C9. The recursion of both builders is well-founded at every argument (any dependency
  source, node, depth, depth bound, filter, ancestor set and state), so every call returns.
  A call whose depth exceeds the bound, whose node matches the filter, or whose node is in
  the ancestor set returns the state unchanged.  In a run from depth 0 every expansion
  happens at a depth between 0 and the depth bound.
\<close>

theorem builder_terminates:
  "dfs_build_graph5_dom (current, depth, max_depth, flt, visited, st5, src)
   \<and> dfs_build_graph4_dom (current, depth, max_depth, flt, visited, st4, src)
   \<and> (depth > max_depth \<or> should_skip_package current flt \<or> current \<in> visited \<longrightarrow>
        dfs_build_graph5 current depth max_depth flt visited st5 src = st5
        \<and> dfs_build_graph4 current depth max_depth flt visited st4 src = st4)
   \<and> (\<forall>e \<in> set (queried (build_graph5 package max_depth flt src)). 0 \<le> snd e \<and> snd e \<le> max_depth)
   \<and> (\<forall>e \<in> set (queried (build_graph4 package max_depth flt src)). 0 \<le> snd e \<and> snd e \<le> max_depth)"
proof (intro conjI)
  show "dfs_build_graph5_dom (current, depth, max_depth, flt, visited, st5, src)"
    using dfs_build_graph5_dom_total by blast
  show "dfs_build_graph4_dom (current, depth, max_depth, flt, visited, st4, src)"
    using dfs_build_graph4_dom_total by blast
  show "depth > max_depth \<or> should_skip_package current flt \<or> current \<in> visited \<longrightarrow>
        dfs_build_graph5 current depth max_depth flt visited st5 src = st5
        \<and> dfs_build_graph4 current depth max_depth flt visited st4 src = st4"
    by (auto simp: dfs5_terminal dfs4_terminal active5_def active4_def)
  show "\<forall>e \<in> set (queried (build_graph5 package max_depth flt src)). 0 \<le> snd e \<and> snd e \<le> max_depth"
    unfolding build_graph5_def
    by (rule dfs5_log[where L=0]) (simp_all add: empty_memo_state_def)
  show "\<forall>e \<in> set (queried (build_graph4 package max_depth flt src)). 0 \<le> snd e \<and> snd e \<le> max_depth"
    unfolding build_graph4_def
    by (rule dfs4_log[where L=0]) (simp_all add: empty_build_state_def)
qed

theorem builder_terminates_witness:
  "(3::int) > 2
   \<and> dfs_build_graph5 ''A'' 3 2 [] {} empty_memo_state cyclic = empty_memo_state
   \<and> dfs_build_graph4 ''A'' 3 2 [] {} empty_build_state cyclic = empty_build_state
   \<and> graph (build_graph5 ''A'' 2 [] cyclic) = [(''A'', [''B'']), (''B'', [''A''])]
   \<and> queried (build_graph5 ''A'' 2 [] cyclic) = [(''A'', 0), (''B'', 1)]
   \<and> list_all (\<lambda>e. 0 \<le> snd e \<and> snd e \<le> 2) (queried (build_graph5 ''A'' 2 [] cyclic))
   \<and> list_all (\<lambda>e. 0 \<le> snd e \<and> snd e \<le> 2) (queried (build_graph4 ''A'' 2 [] cyclic))"
proof -
  have d: "(3::int) > 2" by simp
  have g: "graph (build_graph5 ''A'' 2 [] cyclic) = [(''A'', [''B'']), (''B'', [''A''])]"
    by code_simp
  have q: "queried (build_graph5 ''A'' 2 [] cyclic) = [(''A'', 0), (''B'', 1)]"
    by code_simp
  from builder_terminates[of "''A''" 3 2 "[]" "{}" empty_memo_state cyclic empty_build_state "''A''"]
    d g q show ?thesis
    unfolding list_all_iff by simp
qed










end
